theory Spec2Isabelle
  imports Main "HOL-Library.AList"
begin

section \<open>The document model the link command works on\<close>

text \<open>
  The link command (\<^verbatim>\<open>packages/ckeditor5-link/src/linkcommand.js\<close>) works through
  the engine's document, selection, schema and batch objects and through the helper
  \<^verbatim>\<open>findLinkRange\<close> of \<^verbatim>\<open>./findlinkrange\<close>. This section holds those collaborators, as
  the specification describes them (sections 3, 4.1 and 6).
\<close>

text \<open>
  Modelled from the spec: the document tree and its positions and ranges (section 3). The
  content is the child list of the element the selection lives in: an ordered sequence of
  text and element nodes. Text is held one character per offset, as the positions of P4 and
  P5 count it, so a position is an offset into that sequence and a range is a pair of
  positions (start, end) covering the offsets \<open>start \<le> i < end\<close>. A node carries its
  attributes as a list of name and value pairs, read with \<open>map_of\<close>.
\<close>

type_synonym attrs = "(string \<times> string) list"

datatype node = Character char attrs | Element string attrs

type_synonym position = nat

type_synonym range = "position \<times> position"

text \<open>
  Modelled from the spec: the text node \<^verbatim>\<open>new Text( data, attrs )\<close> builds ("creating a
  text node carrying an initial attribute set", section 6): its character data and its
  attributes. Once inserted it takes one offset per character.
\<close>

datatype text_node = Text string attrs

fun offsetSize :: "text_node \<Rightarrow> nat" where
  "offsetSize (Text data as) = length data"

fun characters :: "text_node \<Rightarrow> node list" where
  "characters (Text data as) = map (\<lambda>c. Character c as) data"

text \<open>
  Modelled from the spec: setting and removing one attribute of a node, and the
  test \<^verbatim>\<open>node.is( kind )\<close> that \<^verbatim>\<open>_checkEnabled\<close> makes on the selected element: an
  element is of the kind its name says, a character of text is of no element kind.
\<close>

fun node_setAttribute :: "string \<Rightarrow> string \<Rightarrow> node \<Rightarrow> node" where
  "node_setAttribute key v (Character c as) = Character c (AList.update key v as)"
| "node_setAttribute key v (Element name as) = Element name (AList.update key v as)"

fun node_removeAttribute :: "string \<Rightarrow> node \<Rightarrow> node" where
  "node_removeAttribute key (Character c as) = Character c (AList.delete key as)"
| "node_removeAttribute key (Element name as) = Element name (AList.delete key as)"

fun node_is :: "node \<Rightarrow> string \<Rightarrow> bool" where
  "node_is (Element name as) kind = (name = kind)"
| "node_is (Character c as) kind = False"

subsection \<open>Selection\<close>

text \<open>
  Modelled from the spec: the selection (sections 3 and 6), owned by the host. It holds its
  ranges and its own attribute set, which the host keeps; the command reads both and
  replaces only the ranges.
\<close>

record selection =
  ranges :: "range list"
  attributes :: attrs

text \<open>
  Modelled from the spec: \<^verbatim>\<open>selection.isCollapsed\<close>, "collapsed (a single Position,
  representing a caret)": one range whose two ends coincide.
\<close>

definition isCollapsed :: "selection \<Rightarrow> bool" where
  "isCollapsed sel = (case ranges sel of [r] \<Rightarrow> fst r = snd r | _ \<Rightarrow> False)"

text \<open>
  Modelled from the spec: \<^verbatim>\<open>selection.getFirstPosition()\<close>, the leading edge of the
  selection: the earliest start of its ranges, and nothing when it has no range.
\<close>

definition getFirstPosition :: "selection \<Rightarrow> position option" where
  "getFirstPosition sel =
     (case ranges sel of [] \<Rightarrow> None | r # rs \<Rightarrow> Some (fold min (map fst rs) (fst r)))"

text \<open>
  Modelled from the spec: \<^verbatim>\<open>selection.getRanges()\<close> and \<^verbatim>\<open>selection.setRanges( ranges )\<close>,
  which read and replace the ranges and nothing else.
\<close>

definition getRanges :: "selection \<Rightarrow> range list" where
  "getRanges sel = ranges sel"

definition setRanges :: "range list \<Rightarrow> selection \<Rightarrow> selection" where
  "setRanges rs sel = sel\<lparr>ranges := rs\<rparr>"

text \<open>
  Modelled from the spec: \<^verbatim>\<open>selection.hasAttribute( name )\<close> and
  \<^verbatim>\<open>selection.getAttribute( name )\<close>, read from the selection's own attribute set; an
  absent attribute reads as \<open>None\<close> (\<^verbatim>\<open>undefined\<close>).
\<close>

definition hasAttribute :: "selection \<Rightarrow> string \<Rightarrow> bool" where
  "hasAttribute sel key = (map_of (attributes sel) key \<noteq> None)"

definition getAttribute :: "selection \<Rightarrow> string \<Rightarrow> string option" where
  "getAttribute sel key = map_of (attributes sel) key"

text \<open>
  Modelled from the spec: \<^verbatim>\<open>selection.getSelectedElement()\<close>, the element when "the
  selection resolves to exactly one selected element": its single range covers exactly one
  node and that node is an element; nothing otherwise.
\<close>

definition getSelectedElement :: "node list \<Rightarrow> selection \<Rightarrow> node option" where
  "getSelectedElement content sel =
     (case ranges sel of
        [r] \<Rightarrow>
          (if snd r = fst r + 1 \<and> fst r < length content
           then (case content ! fst r of
                   Element name as \<Rightarrow> Some (Element name as)
                 | Character c as \<Rightarrow> None)
           else None)
      | _ \<Rightarrow> None)"

text \<open>
  Modelled from the spec: \<^verbatim>\<open>Range.createOn( node )\<close>, "a Range that exactly spans one
  node" (section 6). The node is the text that was just inserted at \<open>position\<close>.
\<close>

definition createOn :: "position \<Rightarrow> text_node \<Rightarrow> range" where
  "createOn position node = (position, position + offsetSize node)"

subsection \<open>Range Expander\<close>

text \<open>
  Modelled from the spec: \<^verbatim>\<open>findLinkRange( position, value )\<close> (section 4.1). From the
  position it walks backward "while the adjacent node is text and carries the attribute
  with a value equal to \<open>value\<close>", walks forward in the same way, and returns the range
  between the two boundaries reached. \<open>value\<close> is what \<^verbatim>\<open>selection.getAttribute\<close>
  returned; the content the position lies in is passed along with it.
\<close>

fun isLinkedWith :: "string option \<Rightarrow> node \<Rightarrow> bool" where
  "isLinkedWith v (Character c as) =
     (map_of as ''linkHref'' \<noteq> None \<and> map_of as ''linkHref'' = v)"
| "isLinkedWith v (Element name as) = False"

definition findBound :: "node list \<Rightarrow> position \<Rightarrow> string option \<Rightarrow> bool \<Rightarrow> position" where
  "findBound content position v lookBack =
     (if lookBack
      then position - length (takeWhile (isLinkedWith v) (rev (take position content)))
      else position + length (takeWhile (isLinkedWith v) (drop position content)))"

definition findLinkRange :: "node list \<Rightarrow> position \<Rightarrow> string option \<Rightarrow> range" where
  "findLinkRange content position v =
     (findBound content position v True, findBound content position v False)"

subsection \<open>Schema\<close>

text \<open>
  Modelled from the spec: the schema (sections 4.2 and 6). Its rules are data of the host,
  so they are the two fields of a record: whether an attribute is legal on a node, and the
  answer of \<^verbatim>\<open>checkAttributeInSelection\<close> for a content, a selection and an attribute.
\<close>

record schema =
  attributeAllowed :: "node \<Rightarrow> string \<Rightarrow> bool"
  checkAttributeInSelection :: "node list \<Rightarrow> selection \<Rightarrow> string \<Rightarrow> bool"

text \<open>
  Modelled from the spec: the walk of \<^verbatim>\<open>getValidRanges\<close> over the nodes of one range,
  which reduces it "to the maximal sub-ranges where the attribute is legal". \<open>i\<close> is the
  offset of the next node and the third argument the start of the run that is open, if one
  is; a run is closed at a node on which the attribute is disallowed and at the end of the
  range.
\<close>

fun legalRuns :: "(node \<Rightarrow> bool) \<Rightarrow> position \<Rightarrow> position option \<Rightarrow> node list \<Rightarrow> range list" where
  "legalRuns ok i None [] = []"
| "legalRuns ok i (Some from) [] = [(from, i)]"
| "legalRuns ok i None (n # ns) =
     (if ok n then legalRuns ok (i + 1) (Some i) ns else legalRuns ok (i + 1) None ns)"
| "legalRuns ok i (Some from) (n # ns) =
     (if ok n then legalRuns ok (i + 1) (Some from) ns
      else (from, i) # legalRuns ok (i + 1) None ns)"

text \<open>
  Modelled from the spec: \<^verbatim>\<open>schema.getValidRanges( ranges, name )\<close>, the legal sub-ranges
  of every range in turn.
\<close>

definition getValidRanges :: "schema \<Rightarrow> node list \<Rightarrow> range list \<Rightarrow> string \<Rightarrow> range list" where
  "getValidRanges sch content rs key =
     concat (map (\<lambda>r. legalRuns (\<lambda>n. attributeAllowed sch n key) (fst r) None
                         (take (snd r - fst r) (drop (fst r) content))) rs)"

subsection \<open>Document, batches and change blocks\<close>

text \<open>
  Modelled from the spec: the two mutations a batch offers (section 6), as operations.
\<close>

datatype operation =
    AttributeOperation range string string
  | InsertOperation position text_node

text \<open>
  Modelled from the spec: what the two mutations do to the content.
  \<^verbatim>\<open>setAttribute( range, name, value )\<close> sets one attribute on every node of a range and
  moves nothing; \<^verbatim>\<open>insert( position, node )\<close> puts the characters of a text node at a
  position. Neither asks the schema.
\<close>

definition setAttributeOnRange :: "range \<Rightarrow> string \<Rightarrow> string \<Rightarrow> node list \<Rightarrow> node list" where
  "setAttributeOnRange r key v content =
     map (\<lambda>(i, n). if fst r \<le> i \<and> i < snd r then node_setAttribute key v n else n)
       (enumerate 0 content)"

definition insertText :: "position \<Rightarrow> text_node \<Rightarrow> node list \<Rightarrow> node list" where
  "insertText position node content =
     take position content @ characters node @ drop position content"

fun applyOperation :: "node list \<Rightarrow> operation \<Rightarrow> node list" where
  "applyOperation content (AttributeOperation r key v) = setAttributeOnRange r key v content"
| "applyOperation content (InsertOperation position node) = insertText position node content"

text \<open>
  Modelled from the spec: batches and change blocks (sections 3, 5 and 6). A batch groups
  the operations the undo system treats as one step. The document keeps every batch
  created, each with the number of the change block that was running when it was created,
  and counts the change blocks run so far.
\<close>

record batch =
  inBlock :: nat
  operations :: "operation list"

record document =
  root :: "node list"
  selection :: selection
  schema :: schema
  batches :: "batch list"
  changeBlocks :: nat

text \<open>
  Modelled from the spec: \<^verbatim>\<open>doc.enqueueChanges( callback )\<close>, "to scope one atomic change
  block": the callback runs as the next change block.
\<close>

definition enqueueChanges :: "(document \<Rightarrow> document) \<Rightarrow> document \<Rightarrow> document" where
  "enqueueChanges callback doc = callback (doc\<lparr>changeBlocks := changeBlocks doc + 1\<rparr>)"

text \<open>
  Modelled from the spec: \<^verbatim>\<open>doc.batch()\<close>, which opens a new batch and returns its handle,
  here its index among the batches.
\<close>

definition doc_batch :: "document \<Rightarrow> nat \<times> document" where
  "doc_batch doc =
     (length (batches doc),
      doc\<lparr>batches := batches doc @ [\<lparr>inBlock = changeBlocks doc, operations = []\<rparr>]\<rparr>)"

text \<open>
  Modelled from the spec: \<^verbatim>\<open>batch.setAttribute\<close> and \<^verbatim>\<open>batch.insert\<close>: the operation is
  applied to the content and recorded in the batch of the handle.
\<close>

definition addOperation :: "nat \<Rightarrow> operation \<Rightarrow> batch list \<Rightarrow> batch list" where
  "addOperation b op bs =
     (if b < length bs then bs[b := (bs ! b)\<lparr>operations := operations (bs ! b) @ [op]\<rparr>] else bs)"

definition batch_apply :: "nat \<Rightarrow> operation \<Rightarrow> document \<Rightarrow> document" where
  "batch_apply b op doc =
     doc\<lparr>root := applyOperation (root doc) op, batches := addOperation b op (batches doc)\<rparr>"

definition batch_setAttribute :: "nat \<Rightarrow> range \<Rightarrow> string \<Rightarrow> string \<Rightarrow> document \<Rightarrow> document" where
  "batch_setAttribute b r key v doc = batch_apply b (AttributeOperation r key v) doc"

definition batch_insert :: "nat \<Rightarrow> position \<Rightarrow> text_node \<Rightarrow> document \<Rightarrow> document" where
  "batch_insert b position node doc = batch_apply b (InsertOperation position node) doc"



section \<open>The link command\<close>

text \<open>
  The command object: the editor's document it works on (\<^verbatim>\<open>this.editor.document\<close>) and
  its two observable fields, \<^verbatim>\<open>value\<close> (here \<open>cmd_value\<close>) and \<^verbatim>\<open>isEnabled\<close>.
\<close>

record linkCommand =
  editor_document :: document
  cmd_value :: "string option"
  isEnabled :: bool

text \<open>\<^verbatim>\<open>_checkEnabled()\<close>, lines 104 to 114.\<close>

definition checkEnabled :: "linkCommand \<Rightarrow> bool" where
  "checkEnabled cmd =
     (let doc = editor_document cmd;
          selectedElement = getSelectedElement (root doc) (selection doc)
      in if (case selectedElement of None \<Rightarrow> False | Some el \<Rightarrow> node_is el ''image'')
         then False
         else checkAttributeInSelection (schema doc) (root doc) (selection doc) ''linkHref'')"

text \<open>\<^verbatim>\<open>refresh()\<close>, lines 32 to 37.\<close>

definition refresh :: "linkCommand \<Rightarrow> linkCommand" where
  "refresh cmd =
     (let doc = editor_document cmd;
          cmd1 = cmd\<lparr>cmd_value := getAttribute (selection doc) ''linkHref''\<rparr>
      in cmd1\<lparr>isEnabled := checkEnabled cmd1\<rparr>)"

text \<open>
  \<^verbatim>\<open>execute( href )\<close>, lines 55 to 96. \<open>execute_changes\<close> is the function handed to
  \<^verbatim>\<open>doc.enqueueChanges\<close>. A collapsed selection always has a first position, so the
  \<open>None\<close> case below is never taken (lemma \<open>isCollapsed_first\<close>). \<^verbatim>\<open>Range.createOn\<close>
  is given the position the node was inserted at.
\<close>

definition execute_changes :: "string \<Rightarrow> document \<Rightarrow> document" where
  "execute_changes href doc0 =
     (let (batch, doc) = doc_batch doc0
      in if isCollapsed (selection doc) then
           (case getFirstPosition (selection doc) of
              None \<Rightarrow> doc
            | Some position \<Rightarrow>
                if hasAttribute (selection doc) ''linkHref'' then
                  (let linkRange = findLinkRange (root doc) position
                                     (getAttribute (selection doc) ''linkHref'');
                       doc1 = batch_setAttribute batch linkRange ''linkHref'' href doc
                   in doc1\<lparr>selection := setRanges [linkRange] (selection doc1)\<rparr>)
                else
                  (let node = Text href [(''linkHref'', href)];
                       doc1 = batch_insert batch position node doc
                   in doc1\<lparr>selection := setRanges [createOn position node] (selection doc1)\<rparr>))
         else
           (let rs = getValidRanges (schema doc) (root doc) (getRanges (selection doc)) ''linkHref''
            in foldl (\<lambda>d r. batch_setAttribute batch r ''linkHref'' href d) doc rs))"

definition execute :: "string \<Rightarrow> linkCommand \<Rightarrow> linkCommand" where
  "execute href cmd =
     cmd\<lparr>editor_document := enqueueChanges (execute_changes href) (editor_document cmd)\<rparr>"

text \<open>
  Modelled from the spec: the call of the command by its host (sections 4.2 and 7). The
  class \<^verbatim>\<open>Command\<close> that \<^verbatim>\<open>LinkCommand\<close> extends, and through which \<^verbatim>\<open>execute\<close> is fired
  (\<^verbatim>\<open>@fires execute\<close>), is not among the sources. The two observable fields are
  "recomputed on every relevant document or selection change", and "callers are expected
  to consult \<^verbatim>\<open>enabled\<close> first": a command that is not enabled is not executed.
\<close>

definition fire_execute :: "string \<Rightarrow> linkCommand \<Rightarrow> linkCommand" where
  "fire_execute href cmd =
     (let cmd1 = refresh cmd
      in if isEnabled cmd1 then execute href cmd1 else cmd1)"

text \<open>
  The three strategies of \<open>execute\<close>, named after the tests the code makes at lines 64 and
  68: (a) update the link the caret is in, (b) insert a new link at the caret, (c) apply the
  attribute to the valid ranges of a non-collapsed selection.
\<close>

datatype strategy = UpdateLink | InsertLink | ApplyToRanges

definition strategy :: "selection \<Rightarrow> strategy" where
  "strategy sel =
     (if isCollapsed sel
      then (if hasAttribute sel ''linkHref'' then UpdateLink else InsertLink)
      else ApplyToRanges)"

section \<open>Auxiliary notions and example documents\<close>

text \<open>
  \<open>covered rs i\<close>: offset \<open>i\<close> lies in one of the ranges \<open>rs\<close>.
  \<open>setAttributeOnRanges\<close> is the attribute set on one range after the other, which is what
  the loop of \<open>execute\<close> at lines 91 to 93 does to the content. The remaining definitions
  are the documents of the examples in section 8 of the specification.
\<close>

definition covered :: "range list \<Rightarrow> nat \<Rightarrow> bool" where
  "covered rs i = list_ex (\<lambda>r. fst r \<le> i \<and> i < snd r) rs"

definition setAttributeOnRanges :: "range list \<Rightarrow> string \<Rightarrow> string \<Rightarrow> node list \<Rightarrow> node list" where
  "setAttributeOnRanges rs key v content = foldl (\<lambda>c r. setAttributeOnRange r key v c) content rs"

definition plainText :: "string \<Rightarrow> node list" where
  "plainText s = map (\<lambda>c. Character c []) s"

definition linkedText :: "string \<Rightarrow> string \<Rightarrow> node list" where
  "linkedText href s = map (\<lambda>c. Character c [(''linkHref'', href)]) s"

definition textSchema :: schema where
  "textSchema =
     \<lparr>attributeAllowed = (\<lambda>n key. case n of Character c as \<Rightarrow> True | Element name as \<Rightarrow> False),
      checkAttributeInSelection = (\<lambda>content sel key. True)\<rparr>"

definition denySchema :: schema where
  "denySchema =
     \<lparr>attributeAllowed = (\<lambda>n key. False),
      checkAttributeInSelection = (\<lambda>content sel key. False)\<rparr>"

definition commandOn :: "schema \<Rightarrow> node list \<Rightarrow> range list \<Rightarrow> attrs \<Rightarrow> linkCommand" where
  "commandOn sch content rs as =
     \<lparr>editor_document =
        \<lparr>root = content, selection = \<lparr>ranges = rs, attributes = as\<rparr>, schema = sch,
         batches = [], changeBlocks = 0\<rparr>,
      cmd_value = None, isEnabled = False\<rparr>"

definition retargetExample :: linkCommand where
  "retargetExample =
     commandOn textSchema (plainText ''ab'' @ linkedText ''old'' ''cdefg'' @ plainText ''hi'')
       [(4, 4)] [(''linkHref'', ''old'')]"

definition insertExample :: linkCommand where
  "insertExample = commandOn textSchema (plainText ''abcdef'') [(4, 4)] []"

definition straddleExample :: linkCommand where
  "straddleExample =
     commandOn textSchema (plainText ''ab'' @ [Element ''image'' []] @ plainText ''cd'')
       [(1, 4)] []"

definition imageExample :: linkCommand where
  "imageExample =
     commandOn \<lparr>attributeAllowed = (\<lambda>n key. True),
                checkAttributeInSelection = (\<lambda>content sel key. True)\<rparr>
       (plainText ''ab'' @ [Element ''image'' []] @ plainText ''cd'') [(2, 3)] []"

definition rejectedExample :: linkCommand where
  "rejectedExample = commandOn denySchema (plainText ''abcd'') [(2, 2)] []"

section \<open>Properties of the document model\<close>

text \<open>
  Setting an attribute keeps the length of the content and changes a node exactly when its
  offset lies in the range; on a list of ranges, when it lies in one of them. The ranges
  \<^verbatim>\<open>getValidRanges\<close> returns cover exactly the offsets of the given ranges that hold a node
  on which the attribute is allowed.
\<close>

lemma node_setAttribute_idem:
  "node_setAttribute key v (node_setAttribute key v n) = node_setAttribute key v n"
  by (cases n) simp_all

lemma node_removeAttribute_set:
  "node_removeAttribute key (node_setAttribute key v n) = node_removeAttribute key n"
  by (cases n) (simp_all add: delete_update_same)

lemma length_setAttributeOnRange:
  "length (setAttributeOnRange r key v content) = length content"
  by (simp add: setAttributeOnRange_def)

lemma nth_setAttributeOnRange:
  "i < length content \<Longrightarrow>
   setAttributeOnRange r key v content ! i =
     (if fst r \<le> i \<and> i < snd r then node_setAttribute key v (content ! i) else content ! i)"
  by (simp add: setAttributeOnRange_def nth_enumerate_eq)

lemma length_setAttributeOnRanges:
  "length (setAttributeOnRanges rs key v content) = length content"
  unfolding setAttributeOnRanges_def
  by (induction rs arbitrary: content) (simp_all add: length_setAttributeOnRange)

lemma nth_setAttributeOnRanges:
  "i < length content \<Longrightarrow>
   setAttributeOnRanges rs key v content ! i =
     (if covered rs i then node_setAttribute key v (content ! i) else content ! i)"
  unfolding setAttributeOnRanges_def
proof (induction rs arbitrary: content)
  case Nil
  then show ?case by (simp add: covered_def)
next
  case (Cons r rs)
  have len: "i < length (setAttributeOnRange r key v content)"
    using Cons.prems by (simp add: length_setAttributeOnRange)
  show ?case
    using Cons.IH [OF len] Cons.prems
    by (simp add: nth_setAttributeOnRange covered_def node_setAttribute_idem)
qed

lemma map_remove_setAttributeOnRange:
  "map (node_removeAttribute key) (setAttributeOnRange r key v content) =
     map (node_removeAttribute key) content"
  by (rule nth_equalityI)
    (simp_all add: length_setAttributeOnRange nth_setAttributeOnRange node_removeAttribute_set)

lemma map_remove_setAttributeOnRanges:
  "map (node_removeAttribute key) (setAttributeOnRanges rs key v content) =
     map (node_removeAttribute key) content"
  by (rule nth_equalityI)
    (simp_all add: length_setAttributeOnRanges nth_setAttributeOnRanges node_removeAttribute_set)

lemma isLinkedWith_set:
  "isLinkedWith w n \<Longrightarrow> isLinkedWith (Some v) (node_setAttribute ''linkHref'' v n)"
  by (cases n) (simp_all add: update_conv')

lemma legalRuns_covered:
  "(case opn of None \<Rightarrow> True | Some from \<Rightarrow> from \<le> i) \<Longrightarrow>
   covered (legalRuns ok i opn ns) j \<longleftrightarrow>
     (case opn of None \<Rightarrow> False | Some from \<Rightarrow> from \<le> j \<and> j < i) \<or>
     (i \<le> j \<and> j < i + length ns \<and> ok (ns ! (j - i)))"
proof (induction ns arbitrary: i opn)
  case Nil
  then show ?case by (cases opn) (auto simp: covered_def)
next
  case (Cons n ns)
  show ?case
  proof (cases opn)
    case None
    show ?thesis
    proof (cases "ok n")
      case True
      have "covered (legalRuns ok (i + 1) (Some i) ns) j \<longleftrightarrow>
              (i \<le> j \<and> j < i + 1) \<or> (i + 1 \<le> j \<and> j < i + 1 + length ns \<and> ok (ns ! (j - (i + 1))))"
        using Cons.IH [where opn = "Some i" and i = "i + 1"] by simp
      then show ?thesis using None True
        by (auto simp: nth_Cons' le_Suc_eq)
    next
      case False
      have "covered (legalRuns ok (i + 1) None ns) j \<longleftrightarrow>
              (i + 1 \<le> j \<and> j < i + 1 + length ns \<and> ok (ns ! (j - (i + 1))))"
        using Cons.IH [where opn = None and i = "i + 1"] by simp
      then show ?thesis using None False
        by (auto simp: nth_Cons' le_Suc_eq)
    qed
  next
    case (Some fr)
    then have le: "fr \<le> i" using Cons.prems by simp
    show ?thesis
    proof (cases "ok n")
      case True
      have "covered (legalRuns ok (i + 1) (Some fr) ns) j \<longleftrightarrow>
              (fr \<le> j \<and> j < i + 1) \<or> (i + 1 \<le> j \<and> j < i + 1 + length ns \<and> ok (ns ! (j - (i + 1))))"
        using Cons.IH [where opn = "Some fr" and i = "i + 1"] le by simp
      then show ?thesis using Some True le
        by (auto simp: nth_Cons' le_Suc_eq)
    next
      case False
      have "covered (legalRuns ok (i + 1) None ns) j \<longleftrightarrow>
              (i + 1 \<le> j \<and> j < i + 1 + length ns \<and> ok (ns ! (j - (i + 1))))"
        using Cons.IH [where opn = None and i = "i + 1"] by simp
      then show ?thesis using Some False
        by (auto simp: nth_Cons' le_Suc_eq covered_def)
    qed
  qed
qed

lemma covered_append: "covered (xs @ ys) j \<longleftrightarrow> covered xs j \<or> covered ys j"
  by (auto simp: covered_def list_ex_iff)

lemma getValidRanges_covered:
  "covered (getValidRanges sch content rs key) j \<longleftrightarrow>
     covered rs j \<and> j < length content \<and> attributeAllowed sch (content ! j) key"
proof (induction rs)
  case Nil
  then show ?case by (simp add: getValidRanges_def covered_def)
next
  case (Cons r rs)
  have one: "covered (legalRuns (\<lambda>n. attributeAllowed sch n key) (fst r) None
                 (take (snd r - fst r) (drop (fst r) content))) j \<longleftrightarrow>
             fst r \<le> j \<and> j < snd r \<and> j < length content \<and> attributeAllowed sch (content ! j) key"
    by (subst legalRuns_covered) (auto simp: min_def)
  have split: "getValidRanges sch content (r # rs) key =
      legalRuns (\<lambda>n. attributeAllowed sch n key) (fst r) None
        (take (snd r - fst r) (drop (fst r) content)) @ getValidRanges sch content rs key"
    by (simp add: getValidRanges_def)
  show ?case
    unfolding split covered_append one Cons.IH
    by (auto simp: covered_def)
qed

section \<open>The three branches of execute\<close>

text \<open>
  What the function handed to \<^verbatim>\<open>enqueueChanges\<close> returns in each of its three branches,
  written as one update of the document it was given.
\<close>

lemma isCollapsed_iff: "isCollapsed sel \<longleftrightarrow> (\<exists>p. ranges sel = [(p, p)])"
  by (auto simp: isCollapsed_def split: list.splits)

lemma isCollapsed_first:
  "isCollapsed sel \<Longrightarrow> getFirstPosition sel \<noteq> None"
  by (auto simp: isCollapsed_def getFirstPosition_def split: list.splits)

lemma collapsed_ranges:
  "isCollapsed sel \<Longrightarrow> getFirstPosition sel = Some p \<Longrightarrow> ranges sel = [(p, p)]"
  by (auto simp: isCollapsed_def getFirstPosition_def split: list.splits)

lemma addOperation_last:
  "addOperation (length bs) op (bs @ [b]) = bs @ [b\<lparr>operations := operations b @ [op]\<rparr>]"
  by (simp add: addOperation_def)

lemma foldl_addOperation_last:
  "foldl (\<lambda>xs r. addOperation (length bs) (f r) xs) (bs @ [b]) rs =
     bs @ [b\<lparr>operations := operations b @ map f rs\<rparr>]"
proof (induction rs arbitrary: b)
  case Nil
  show ?case by simp
next
  case (Cons r rs)
  show ?case
    by (simp add: addOperation_last Cons.IH)
qed

lemma foldl_batch_setAttribute:
  "foldl (\<lambda>d r. batch_setAttribute b r key v d) doc rs =
     doc\<lparr>root := setAttributeOnRanges rs key v (root doc),
         batches := foldl (\<lambda>xs r. addOperation b (AttributeOperation r key v) xs) (batches doc) rs\<rparr>"
proof (induction rs arbitrary: doc)
  case Nil
  show ?case by (simp add: setAttributeOnRanges_def)
next
  case (Cons r rs)
  show ?case
    unfolding foldl_Cons Cons.IH
    by (simp add: batch_setAttribute_def batch_apply_def setAttributeOnRanges_def)
qed

lemma foldl_applyOperation_attribute:
  "foldl applyOperation content (map (\<lambda>r. AttributeOperation r key v) rs) =
     setAttributeOnRanges rs key v content"
  unfolding setAttributeOnRanges_def
  by (induction rs arbitrary: content) simp_all

lemma execute_changes_update:
  assumes "ranges (selection doc) = [(p, p)]"
    and "map_of (attributes (selection doc)) ''linkHref'' = Some cur"
  shows "execute_changes href doc =
     doc\<lparr>root := setAttributeOnRange (findLinkRange (root doc) p (Some cur)) ''linkHref'' href (root doc),
         selection := (selection doc)\<lparr>ranges := [findLinkRange (root doc) p (Some cur)]\<rparr>,
         batches := batches doc @
           [\<lparr>inBlock = changeBlocks doc,
             operations = [AttributeOperation (findLinkRange (root doc) p (Some cur)) ''linkHref'' href]\<rparr>]\<rparr>"
  using assms
  by (simp add: execute_changes_def doc_batch_def isCollapsed_def getFirstPosition_def
      hasAttribute_def getAttribute_def batch_setAttribute_def batch_apply_def setRanges_def
      addOperation_last Let_def)

lemma execute_changes_insert:
  assumes "ranges (selection doc) = [(p, p)]"
    and "map_of (attributes (selection doc)) ''linkHref'' = None"
  shows "execute_changes href doc =
     doc\<lparr>root := insertText p (Text href [(''linkHref'', href)]) (root doc),
         selection := (selection doc)\<lparr>ranges := [(p, p + length href)]\<rparr>,
         batches := batches doc @
           [\<lparr>inBlock = changeBlocks doc,
             operations = [InsertOperation p (Text href [(''linkHref'', href)])]\<rparr>]\<rparr>"
  using assms
  by (simp add: execute_changes_def doc_batch_def isCollapsed_def getFirstPosition_def
      hasAttribute_def getAttribute_def batch_insert_def batch_apply_def setRanges_def
      addOperation_last Let_def createOn_def)

lemma execute_changes_apply:
  assumes "\<not> isCollapsed (selection doc)"
  shows "execute_changes href doc =
     doc\<lparr>root := setAttributeOnRanges
                 (getValidRanges (schema doc) (root doc) (ranges (selection doc)) ''linkHref'')
                 ''linkHref'' href (root doc),
         batches := batches doc @
           [\<lparr>inBlock = changeBlocks doc,
             operations = map (\<lambda>r. AttributeOperation r ''linkHref'' href)
                 (getValidRanges (schema doc) (root doc) (ranges (selection doc)) ''linkHref'')\<rparr>]\<rparr>"
  using assms
  by (simp add: execute_changes_def doc_batch_def getRanges_def foldl_batch_setAttribute
      foldl_addOperation_last Let_def)

lemma execute_changes_batch:
  "\<exists>ops. batches (execute_changes href doc) =
            batches doc @ [\<lparr>inBlock = changeBlocks doc, operations = ops\<rparr>] \<and>
         root (execute_changes href doc) = foldl applyOperation (root doc) ops \<and>
         changeBlocks (execute_changes href doc) = changeBlocks doc"
proof (cases "isCollapsed (selection doc)")
  case False
  show ?thesis
    unfolding execute_changes_apply [OF False]
    by (simp add: foldl_applyOperation_attribute)
next
  case True
  then obtain p where rs: "ranges (selection doc) = [(p, p)]"
    by (auto simp: isCollapsed_iff)
  show ?thesis
  proof (cases "map_of (attributes (selection doc)) ''linkHref''")
    case None
    show ?thesis
      unfolding execute_changes_insert [OF rs None] by simp
  next
    case (Some cur)
    show ?thesis
      unfolding execute_changes_update [OF rs Some] by simp
  qed
qed

lemma editor_document_refresh: "editor_document (refresh cmd) = editor_document cmd"
  by (simp add: refresh_def Let_def)

lemma isEnabled_refresh: "isEnabled (refresh cmd) = checkEnabled cmd"
  by (simp add: refresh_def checkEnabled_def Let_def)

lemma fire_execute_enabled:
  "checkEnabled cmd \<Longrightarrow>
   editor_document (fire_execute href cmd) = editor_document (execute href cmd)"
  by (simp add: fire_execute_def Let_def isEnabled_refresh execute_def editor_document_refresh)

lemma editor_document_execute:
  "editor_document (execute href cmd) =
     enqueueChanges (execute_changes href) (editor_document cmd)"
  by (simp add: execute_def)

section \<open>The Range Expander\<close>

text \<open>
  The range the expander returns around a position of the content: every node in it is
  text linked with the value, and the node before it and the node after it are not (P1 and
  P2 of the specification).
\<close>

lemma findLinkRange_linked:
  assumes "fst (findLinkRange content p v) \<le> i" and "i < snd (findLinkRange content p v)"
    and "p \<le> length content"
  shows "i < length content \<and> isLinkedWith v (content ! i)"
proof (cases "i < p")
  case True
  let ?bs = "takeWhile (isLinkedWith v) (rev (take p content))"
  have lenb: "length ?bs \<le> p"
    using length_takeWhile_le [of "isLinkedWith v" "rev (take p content)"] assms(3) by simp
  have "p - length ?bs \<le> i" using assms(1) by (simp add: findLinkRange_def findBound_def)
  then have k: "p - 1 - i < length ?bs" using True lenb by arith
  have "?bs ! (p - 1 - i) = rev (take p content) ! (p - 1 - i)"
    using k by (rule takeWhile_nth)
  also have "\<dots> = take p content ! i"
    using True assms(3) by (simp add: rev_nth)
  also have "\<dots> = content ! i" using True by simp
  finally have "content ! i = ?bs ! (p - 1 - i)" by simp
  moreover have "isLinkedWith v (?bs ! (p - 1 - i))"
    using k by (metis nth_mem set_takeWhileD)
  ultimately show ?thesis using True assms(3) by simp
next
  case False
  let ?fs = "takeWhile (isLinkedWith v) (drop p content)"
  have k: "i - p < length ?fs"
    using assms(2) False by (simp add: findLinkRange_def findBound_def)
  have lenf: "length ?fs \<le> length content - p"
    using length_takeWhile_le [of "isLinkedWith v" "drop p content"] by simp
  have i: "i < length content" using k lenf False by arith
  have "?fs ! (i - p) = drop p content ! (i - p)"
    using k by (rule takeWhile_nth)
  also have "\<dots> = content ! i" using False i by simp
  finally have "content ! i = ?fs ! (i - p)" by simp
  moreover have "isLinkedWith v (?fs ! (i - p))"
    using k by (metis nth_mem set_takeWhileD)
  ultimately show ?thesis using i by simp
qed

lemma findLinkRange_stops_after:
  assumes "snd (findLinkRange content p v) < length content"
  shows "\<not> isLinkedWith v (content ! snd (findLinkRange content p v))"
proof -
  let ?fs = "takeWhile (isLinkedWith v) (drop p content)"
  have e: "snd (findLinkRange content p v) = p + length ?fs"
    by (simp add: findLinkRange_def findBound_def)
  have "length ?fs < length (drop p content)" using assms e by simp
  then have "\<not> isLinkedWith v (drop p content ! length ?fs)"
    by (rule nth_length_takeWhile)
  moreover have "drop p content ! length ?fs = content ! (p + length ?fs)"
    using assms e by simp
  ultimately show ?thesis using e by simp
qed

lemma findLinkRange_stops_before:
  assumes "0 < fst (findLinkRange content p v)" and "p \<le> length content"
  shows "\<not> isLinkedWith v (content ! (fst (findLinkRange content p v) - 1))"
proof -
  let ?bs = "takeWhile (isLinkedWith v) (rev (take p content))"
  have s: "fst (findLinkRange content p v) = p - length ?bs"
    by (simp add: findLinkRange_def findBound_def)
  have lt: "length ?bs < length (rev (take p content))" using assms s by simp
  then have "\<not> isLinkedWith v (rev (take p content) ! length ?bs)"
    by (rule nth_length_takeWhile)
  moreover have "rev (take p content) ! length ?bs = content ! (p - length ?bs - 1)"
    using lt assms(2) by (simp add: rev_nth)
  ultimately show ?thesis using s by simp
qed



section \<open>Running execute twice\<close>

text \<open>
  A second run of the change block of \<open>execute\<close> finds either the state the first run
  started from (when the range the first run selected is empty) or a non-collapsed
  selection over nodes that already carry the value; in both cases it leaves the content
  and the selection as the first run left them.
\<close>

lemma setAttributeOnRanges_same:
  assumes "\<And>i. i < length content \<Longrightarrow> covered rs i \<Longrightarrow>
             node_setAttribute key v (content ! i) = content ! i"
  shows "setAttributeOnRanges rs key v content = content"
proof (rule nth_equalityI)
  show "length (setAttributeOnRanges rs key v content) = length content"
    by (rule length_setAttributeOnRanges)
next
  fix i
  assume "i < length (setAttributeOnRanges rs key v content)"
  then have i: "i < length content"
    by (simp add: length_setAttributeOnRanges)
  show "setAttributeOnRanges rs key v content ! i = content ! i"
    using assms [OF i] by (simp add: nth_setAttributeOnRanges [OF i])
qed

lemma setAttributeOnRange_empty:
  "setAttributeOnRange (p, p) key v content = content"
  by (rule nth_equalityI) (auto simp: length_setAttributeOnRange nth_setAttributeOnRange)

lemma findLinkRange_bounds:
  "fst (findLinkRange content p v) \<le> p \<and> p \<le> snd (findLinkRange content p v)"
  by (simp add: findLinkRange_def findBound_def)

lemma findLinkRange_collapsed:
  assumes "fst (findLinkRange content p v) = snd (findLinkRange content p v)"
  shows "findLinkRange content p v = (p, p)"
proof -
  have "fst (findLinkRange content p v) = p" "snd (findLinkRange content p v) = p"
    using assms findLinkRange_bounds [of content p v] by linarith+
  then show ?thesis by (simp add: prod_eq_iff)
qed

lemma insertText_nth:
  assumes "p \<le> i" and "i < p + length href" and "i < length (insertText p (Text href as) content)"
  shows "\<exists>c. insertText p (Text href as) content ! i = Character c as"
proof -
  let ?q = "min p (length content)"
  have eq: "insertText p (Text href as) content =
        take ?q content @ map (\<lambda>c. Character c as) href @ drop ?q content"
    by (simp add: insertText_def min_def)
  have lenq: "length (take ?q content) = ?q" by simp
  have len: "length (insertText p (Text href as) content) = length content + length href"
    by (simp add: insertText_def)
  have ge: "?q \<le> i" using assms(1) by simp
  have lt: "i - ?q < length href"
    using assms len by (auto simp: min_def)
  have "insertText p (Text href as) content ! i =
          (map (\<lambda>c. Character c as) href @ drop ?q content) ! (i - ?q)"
    unfolding eq using ge lenq by (metis nth_append leD)
  also have "\<dots> = Character (href ! (i - ?q)) as"
    using lt by (simp add: nth_append)
  finally show ?thesis by blast
qed

lemma run_twice:
  "root (enqueueChanges (execute_changes href) (enqueueChanges (execute_changes href) doc)) =
     root (enqueueChanges (execute_changes href) doc) \<and>
   selection (enqueueChanges (execute_changes href) (enqueueChanges (execute_changes href) doc)) =
     selection (enqueueChanges (execute_changes href) doc)"
proof (cases "isCollapsed (selection doc)")
  case False
  let ?d = "doc\<lparr>changeBlocks := changeBlocks doc + 1\<rparr>"
  let ?rs = "getValidRanges (schema doc) (root doc) (ranges (selection doc)) ''linkHref''"
  let ?R1 = "setAttributeOnRanges ?rs ''linkHref'' href (root doc)"
  have nc: "\<not> isCollapsed (selection ?d)" using False by simp
  have first: "enqueueChanges (execute_changes href) doc =
      ?d\<lparr>root := ?R1,
         batches := batches doc @
           [\<lparr>inBlock = changeBlocks doc + 1,
             operations = map (\<lambda>r. AttributeOperation r ''linkHref'' href) ?rs\<rparr>]\<rparr>"
    unfolding enqueueChanges_def execute_changes_apply [OF nc] by simp
  let ?d1 = "enqueueChanges (execute_changes href) doc"
  let ?d1' = "?d1\<lparr>changeBlocks := changeBlocks ?d1 + 1\<rparr>"
  have sel1: "selection ?d1 = selection doc" and root1: "root ?d1 = ?R1"
    and sch1: "schema ?d1 = schema doc"
    unfolding first by simp_all
  have nc1: "\<not> isCollapsed (selection ?d1')" using False sel1 by simp
  let ?rs1 = "getValidRanges (schema doc) ?R1 (ranges (selection doc)) ''linkHref''"
  have second: "root (enqueueChanges (execute_changes href) ?d1) =
        setAttributeOnRanges ?rs1 ''linkHref'' href ?R1"
    and second_sel: "selection (enqueueChanges (execute_changes href) ?d1) = selection doc"
    unfolding enqueueChanges_def [of _ ?d1] execute_changes_apply [OF nc1]
    by (simp_all add: sel1 root1 sch1)
  have "setAttributeOnRanges ?rs1 ''linkHref'' href ?R1 = ?R1"
  proof (rule setAttributeOnRanges_same)
    fix i
    assume i: "i < length ?R1" and cov: "covered ?rs1 i"
    have i0: "i < length (root doc)" using i by (simp add: length_setAttributeOnRanges)
    show "node_setAttribute ''linkHref'' href (?R1 ! i) = ?R1 ! i"
    proof (cases "covered ?rs i")
      case True
      then show ?thesis
        by (simp add: nth_setAttributeOnRanges [OF i0] node_setAttribute_idem)
    next
      case nocov: False
      have same: "?R1 ! i = root doc ! i"
        using nocov by (simp add: nth_setAttributeOnRanges [OF i0])
      have "covered (ranges (selection doc)) i \<and> attributeAllowed (schema doc) (?R1 ! i) ''linkHref''"
        using cov by (simp add: getValidRanges_covered)
      then have "covered ?rs i"
        using i0 same by (simp add: getValidRanges_covered)
      then show ?thesis using nocov by simp
    qed
  qed
  then show ?thesis
    using second second_sel sel1 root1 by simp
next
  case True
  then obtain p where rs: "ranges (selection doc) = [(p, p)]"
    by (auto simp: isCollapsed_iff)
  let ?d = "doc\<lparr>changeBlocks := changeBlocks doc + 1\<rparr>"
  have rsd: "ranges (selection ?d) = [(p, p)]" using rs by simp
  let ?d1 = "enqueueChanges (execute_changes href) doc"
  let ?d1' = "?d1\<lparr>changeBlocks := changeBlocks ?d1 + 1\<rparr>"
  show ?thesis
  proof (cases "map_of (attributes (selection doc)) ''linkHref''")
    case None
    let ?R1 = "insertText p (Text href [(''linkHref'', href)]) (root doc)"
    have at: "map_of (attributes (selection ?d)) ''linkHref'' = None" using None by simp
    have root1: "root ?d1 = ?R1"
      and sel1: "selection ?d1 = (selection doc)\<lparr>ranges := [(p, p + length href)]\<rparr>"
      and sch1: "schema ?d1 = schema doc"
      unfolding enqueueChanges_def execute_changes_insert [OF rsd at] by simp_all
    show ?thesis
    proof (cases "href = []")
      case True
      have r1: "?R1 = root doc" using True by (simp add: insertText_def)
      have rs1: "ranges (selection ?d1') = [(p, p)]" using sel1 True by simp
      have at1: "map_of (attributes (selection ?d1')) ''linkHref'' = None"
        using sel1 None by simp
      have "root (enqueueChanges (execute_changes href) ?d1) =
              insertText p (Text href [(''linkHref'', href)]) (root ?d1)"
        and "selection (enqueueChanges (execute_changes href) ?d1) =
              (selection ?d1)\<lparr>ranges := [(p, p + length href)]\<rparr>"
        unfolding enqueueChanges_def [of _ ?d1] execute_changes_insert [OF rs1 at1] by simp_all
      then show ?thesis
        using root1 sel1 True by (simp add: insertText_def)
    next
      case False
      have nc1: "\<not> isCollapsed (selection ?d1')"
        using sel1 False by (simp add: isCollapsed_def)
      let ?rs1 = "getValidRanges (schema doc) ?R1 [(p, p + length href)] ''linkHref''"
      have second: "root (enqueueChanges (execute_changes href) ?d1) =
            setAttributeOnRanges ?rs1 ''linkHref'' href ?R1"
        and second_sel: "selection (enqueueChanges (execute_changes href) ?d1) = selection ?d1"
        unfolding enqueueChanges_def [of _ ?d1] execute_changes_apply [OF nc1]
        by (simp_all add: sel1 root1 sch1)
      have "setAttributeOnRanges ?rs1 ''linkHref'' href ?R1 = ?R1"
      proof (rule setAttributeOnRanges_same)
        fix i
        assume i: "i < length ?R1" and cov: "covered ?rs1 i"
        have "p \<le> i \<and> i < p + length href"
          using cov unfolding getValidRanges_covered by (simp add: covered_def)
        then obtain c where "?R1 ! i = Character c [(''linkHref'', href)]"
          using insertText_nth [of p i href "[(''linkHref'', href)]" "root doc"] i by blast
        then show "node_setAttribute ''linkHref'' href (?R1 ! i) = ?R1 ! i"
          by simp
      qed
      then show ?thesis
        using second second_sel root1 by simp
    qed
  next
    case (Some cur)
    let ?span = "findLinkRange (root doc) p (Some cur)"
    let ?R1 = "setAttributeOnRange ?span ''linkHref'' href (root doc)"
    have at: "map_of (attributes (selection ?d)) ''linkHref'' = Some cur" using Some by simp
    have root1: "root ?d1 = ?R1"
      and sel1: "selection ?d1 = (selection doc)\<lparr>ranges := [?span]\<rparr>"
      and sch1: "schema ?d1 = schema doc"
      unfolding enqueueChanges_def execute_changes_update [OF rsd at] by simp_all
    show ?thesis
    proof (cases "fst ?span = snd ?span")
      case True
      have span: "?span = (p, p)" using True by (rule findLinkRange_collapsed)
      have r1: "?R1 = root doc" by (simp add: span setAttributeOnRange_empty)
      have rs1: "ranges (selection ?d1') = [(p, p)]" using sel1 span by simp
      have at1: "map_of (attributes (selection ?d1')) ''linkHref'' = Some cur"
        using sel1 Some by simp
      have "root (enqueueChanges (execute_changes href) ?d1) =
              setAttributeOnRange (findLinkRange (root ?d1) p (Some cur)) ''linkHref'' href (root ?d1)"
        and "selection (enqueueChanges (execute_changes href) ?d1) =
              (selection ?d1)\<lparr>ranges := [findLinkRange (root ?d1) p (Some cur)]\<rparr>"
        unfolding enqueueChanges_def [of _ ?d1] execute_changes_update [OF rs1 at1] by simp_all
      then show ?thesis
        using root1 sel1 r1 span by (simp add: setAttributeOnRange_empty)
    next
      case False
      have nc1: "\<not> isCollapsed (selection ?d1')"
        using sel1 False by (simp add: isCollapsed_def)
      let ?rs1 = "getValidRanges (schema doc) ?R1 [?span] ''linkHref''"
      have second: "root (enqueueChanges (execute_changes href) ?d1) =
            setAttributeOnRanges ?rs1 ''linkHref'' href ?R1"
        and second_sel: "selection (enqueueChanges (execute_changes href) ?d1) = selection ?d1"
        unfolding enqueueChanges_def [of _ ?d1] execute_changes_apply [OF nc1]
        by (simp_all add: sel1 root1 sch1)
      have "setAttributeOnRanges ?rs1 ''linkHref'' href ?R1 = ?R1"
      proof (rule setAttributeOnRanges_same)
        fix i
        assume i: "i < length ?R1" and cov: "covered ?rs1 i"
        have i0: "i < length (root doc)" using i by (simp add: length_setAttributeOnRange)
        have "fst ?span \<le> i \<and> i < snd ?span"
          using cov unfolding getValidRanges_covered by (simp add: covered_def)
        then have "?R1 ! i = node_setAttribute ''linkHref'' href (root doc ! i)"
          by (simp add: nth_setAttributeOnRange [OF i0])
        then show "node_setAttribute ''linkHref'' href (?R1 ! i) = ?R1 ! i"
          by (simp add: node_setAttribute_idem)
      qed
      then show ?thesis
        using second second_sel root1 by simp
    qed
  qed
qed

section \<open>Properties of the link command\<close>

text \<open>
  The definitions that \<open>simp\<close> unfolds to run the command on the example documents.
\<close>

lemmas example_defs =
  commandOn_def textSchema_def plainText_def linkedText_def

lemmas run_defs =
  execute_def enqueueChanges_def execute_changes_def doc_batch_def isCollapsed_def
  getFirstPosition_def hasAttribute_def getAttribute_def getRanges_def setRanges_def
  createOn_def findLinkRange_def findBound_def getValidRanges_def
  batch_setAttribute_def batch_insert_def batch_apply_def addOperation_def
  setAttributeOnRange_def insertText_def strategy_def Let_def



text \<open>
  The body of \<open>execute\<close> makes no schema test of its own in its collapsed branches: the
  test lies with \<^verbatim>\<open>isEnabled\<close>. Run past it on the same command, which is not enabled, the
  body inserts the link text; section 7 of the specification leaves that call to the
  caller to avoid.
\<close>

lemma execute_body_not_gated:
  "checkEnabled rejectedExample = False \<and>
   root (editor_document (execute ''url'' rejectedExample)) =
     plainText ''ab'' @ linkedText ''url'' ''url'' @ plainText ''cd'' \<and>
   ranges (selection (editor_document (execute ''url'' rejectedExample))) = [(2, 5)]"
  by (simp add: rejectedExample_def denySchema_def example_defs run_defs
      checkEnabled_def getSelectedElement_def)

text \<open>
  Claim C2. With a collapsed selection whose \<^verbatim>\<open>linkHref\<close> attribute has the value \<open>cur\<close>,
  \<open>execute href\<close> sets \<^verbatim>\<open>linkHref\<close> to \<open>href\<close> on every node of the span the Range
  Expander returns for the caret and \<open>cur\<close>, changes no node outside it, and replaces the
  selection with that single range. The span holds the caret, every node in it carried
  \<open>cur\<close> and carries \<open>href\<close> afterwards, and the nodes next to its two ends do not carry
  \<open>cur\<close>: the whole run is retargeted, not a part of it.
\<close>

theorem execute_updates_whole_link:
  assumes "isCollapsed (selection (editor_document cmd))"
    and "getFirstPosition (selection (editor_document cmd)) = Some p"
    and "getAttribute (selection (editor_document cmd)) ''linkHref'' = Some cur"
    and "p \<le> length (root (editor_document cmd))"
  shows "let content = root (editor_document cmd);
             span = findLinkRange content p (Some cur);
             doc' = editor_document (execute href cmd)
         in ranges (selection doc') = [span] \<and>
            length (root doc') = length content \<and>
            (\<forall>i < length content.
               root doc' ! i =
                 (if fst span \<le> i \<and> i < snd span
                  then node_setAttribute ''linkHref'' href (content ! i) else content ! i)) \<and>
            (\<forall>i. fst span \<le> i \<and> i < snd span \<longrightarrow>
               isLinkedWith (Some cur) (content ! i) \<and> isLinkedWith (Some href) (root doc' ! i)) \<and>
            fst span \<le> p \<and> p \<le> snd span \<and> snd span \<le> length content \<and>
            (0 < fst span \<longrightarrow> \<not> isLinkedWith (Some cur) (content ! (fst span - 1))) \<and>
            (snd span < length content \<longrightarrow> \<not> isLinkedWith (Some cur) (content ! snd span))"
proof -
  let ?doc = "editor_document cmd"
  let ?d = "?doc\<lparr>changeBlocks := changeBlocks ?doc + 1\<rparr>"
  let ?span = "findLinkRange (root ?doc) p (Some cur)"
  let ?doc' = "editor_document (execute href cmd)"
  have rs: "ranges (selection ?d) = [(p, p)]"
    using collapsed_ranges [OF assms(1,2)] by simp
  have at: "map_of (attributes (selection ?d)) ''linkHref'' = Some cur"
    using assms(3) by (simp add: getAttribute_def)
  have root': "root ?doc' = setAttributeOnRange ?span ''linkHref'' href (root ?doc)"
    and sel': "ranges (selection ?doc') = [?span]"
    unfolding editor_document_execute enqueueChanges_def execute_changes_update [OF rs at]
    by simp_all
  have len: "length (root ?doc') = length (root ?doc)"
    by (simp add: root' length_setAttributeOnRange)
  have nth: "\<forall>i < length (root ?doc). root ?doc' ! i =
      (if fst ?span \<le> i \<and> i < snd ?span
       then node_setAttribute ''linkHref'' href (root ?doc ! i) else root ?doc ! i)"
    by (simp add: root' nth_setAttributeOnRange)
  have inside: "\<forall>i. fst ?span \<le> i \<and> i < snd ?span \<longrightarrow>
      isLinkedWith (Some cur) (root ?doc ! i) \<and> isLinkedWith (Some href) (root ?doc' ! i)"
  proof (intro allI impI)
    fix i
    assume i: "fst ?span \<le> i \<and> i < snd ?span"
    then have l: "i < length (root ?doc) \<and> isLinkedWith (Some cur) (root ?doc ! i)"
      using findLinkRange_linked [of "root ?doc" p "Some cur" i] assms(4) by simp
    then have "root ?doc' ! i = node_setAttribute ''linkHref'' href (root ?doc ! i)"
      using nth i by simp
    then show "isLinkedWith (Some cur) (root ?doc ! i) \<and> isLinkedWith (Some href) (root ?doc' ! i)"
      using l isLinkedWith_set [of "Some cur" "root ?doc ! i" href] by simp
  qed
  have upper: "snd ?span \<le> length (root ?doc)"
  proof (rule ccontr)
    assume "\<not> snd ?span \<le> length (root ?doc)"
    then have "fst ?span \<le> length (root ?doc) \<and> length (root ?doc) < snd ?span"
      using findLinkRange_bounds [of "root ?doc" p "Some cur"] assms(4) by simp
    then have "length (root ?doc) < length (root ?doc)"
      using findLinkRange_linked [of "root ?doc" p "Some cur" "length (root ?doc)"] assms(4)
      by simp
    then show False by simp
  qed
  have before: "0 < fst ?span \<longrightarrow> \<not> isLinkedWith (Some cur) (root ?doc ! (fst ?span - 1))"
    using findLinkRange_stops_before [of "root ?doc" p "Some cur"] assms(4) by simp
  have after: "snd ?span < length (root ?doc) \<longrightarrow> \<not> isLinkedWith (Some cur) (root ?doc ! snd ?span)"
    using findLinkRange_stops_after [of "root ?doc" p "Some cur"] by simp
  show ?thesis
    unfolding Let_def
    using sel' len nth inside findLinkRange_bounds [of "root ?doc" p "Some cur"] upper before after
    by blast
qed

text \<open>
  The example P4 of the specification: a link \<^verbatim>\<open>old\<close> over [2,7), the caret at 4.
\<close>

theorem execute_updates_whole_link_witness:
  "isCollapsed (selection (editor_document retargetExample)) \<and>
   getFirstPosition (selection (editor_document retargetExample)) = Some 4 \<and>
   getAttribute (selection (editor_document retargetExample)) ''linkHref'' = Some ''old'' \<and>
   4 \<le> length (root (editor_document retargetExample)) \<and>
   ranges (selection (editor_document (execute ''new'' retargetExample))) = [(2, 7)] \<and>
   root (editor_document (execute ''new'' retargetExample)) =
     plainText ''ab'' @ linkedText ''new'' ''cdefg'' @ plainText ''hi''"
proof -
  have h1: "isCollapsed (selection (editor_document retargetExample))"
    by (simp add: retargetExample_def example_defs isCollapsed_def)
  have h2: "getFirstPosition (selection (editor_document retargetExample)) = Some 4"
    by (simp add: retargetExample_def example_defs getFirstPosition_def)
  have h3: "getAttribute (selection (editor_document retargetExample)) ''linkHref'' = Some ''old''"
    by (simp add: retargetExample_def example_defs getAttribute_def)
  have h4: "4 \<le> length (root (editor_document retargetExample))"
    by (simp add: retargetExample_def example_defs)
  have span: "findLinkRange (root (editor_document retargetExample)) 4 (Some ''old'') = (2, 7)"
    by (simp add: retargetExample_def example_defs findLinkRange_def findBound_def)
  have sel: "ranges (selection (editor_document (execute ''new'' retargetExample))) = [(2, 7)]"
    using execute_updates_whole_link [OF h1 h2 h3 h4, of "''new''"]
    by (simp add: Let_def span)
  have content: "root (editor_document (execute ''new'' retargetExample)) =
      plainText ''ab'' @ linkedText ''new'' ''cdefg'' @ plainText ''hi''"
    by (simp add: retargetExample_def example_defs run_defs)
  show ?thesis using h1 h2 h3 h4 sel content by simp
qed

text \<open>
  Claim C3. With a collapsed selection that has no \<^verbatim>\<open>linkHref\<close> attribute, \<open>execute href\<close>
  inserts at the caret the characters of \<open>href\<close>, each carrying \<^verbatim>\<open>linkHref\<close> = \<open>href\<close>,
  and replaces the selection with the range that covers exactly the inserted text.
\<close>

theorem execute_inserts_link_text:
  assumes "isCollapsed (selection (editor_document cmd))"
    and "getFirstPosition (selection (editor_document cmd)) = Some p"
    and "\<not> hasAttribute (selection (editor_document cmd)) ''linkHref''"
    and "p \<le> length (root (editor_document cmd))"
  shows "let content = root (editor_document cmd);
             doc' = editor_document (execute href cmd)
         in root doc' =
              take p content @ map (\<lambda>c. Character c [(''linkHref'', href)]) href @ drop p content \<and>
            ranges (selection doc') = [(p, p + length href)] \<and>
            take (length href) (drop p (root doc')) =
              map (\<lambda>c. Character c [(''linkHref'', href)]) href"
proof -
  let ?doc = "editor_document cmd"
  let ?d = "?doc\<lparr>changeBlocks := changeBlocks ?doc + 1\<rparr>"
  let ?doc' = "editor_document (execute href cmd)"
  have rs: "ranges (selection ?d) = [(p, p)]"
    using collapsed_ranges [OF assms(1,2)] by simp
  have at: "map_of (attributes (selection ?d)) ''linkHref'' = None"
    using assms(3) by (simp add: hasAttribute_def)
  have root': "root ?doc' = insertText p (Text href [(''linkHref'', href)]) (root ?doc)"
    and sel': "ranges (selection ?doc') = [(p, p + length href)]"
    unfolding editor_document_execute enqueueChanges_def execute_changes_insert [OF rs at]
    by simp_all
  have r: "root ?doc' =
      take p (root ?doc) @ map (\<lambda>c. Character c [(''linkHref'', href)]) href @ drop p (root ?doc)"
    by (simp add: root' insertText_def)
  have "take (length href) (drop p (root ?doc')) = map (\<lambda>c. Character c [(''linkHref'', href)]) href"
    unfolding r using assms(4) by simp
  then show ?thesis
    unfolding Let_def using r sel' by simp
qed

text \<open>
  The example P5 of the specification: the caret at 4 in plain text, \<open>execute ''href1''\<close>.
\<close>

theorem execute_inserts_link_text_witness:
  "isCollapsed (selection (editor_document insertExample)) \<and>
   getFirstPosition (selection (editor_document insertExample)) = Some 4 \<and>
   \<not> hasAttribute (selection (editor_document insertExample)) ''linkHref'' \<and>
   4 \<le> length (root (editor_document insertExample)) \<and>
   root (editor_document (execute ''href1'' insertExample)) =
     plainText ''abcd'' @ linkedText ''href1'' ''href1'' @ plainText ''ef'' \<and>
   ranges (selection (editor_document (execute ''href1'' insertExample))) = [(4, 9)]"
proof -
  have h1: "isCollapsed (selection (editor_document insertExample))"
    by (simp add: insertExample_def example_defs isCollapsed_def)
  have h2: "getFirstPosition (selection (editor_document insertExample)) = Some 4"
    by (simp add: insertExample_def example_defs getFirstPosition_def)
  have h3: "\<not> hasAttribute (selection (editor_document insertExample)) ''linkHref''"
    by (simp add: insertExample_def example_defs hasAttribute_def)
  have h4: "4 \<le> length (root (editor_document insertExample))"
    by (simp add: insertExample_def example_defs)
  have content: "root (editor_document insertExample) = plainText ''abcdef''"
    by (simp add: insertExample_def example_defs)
  have "root (editor_document (execute ''href1'' insertExample)) =
          plainText ''abcd'' @ linkedText ''href1'' ''href1'' @ plainText ''ef'' \<and>
        ranges (selection (editor_document (execute ''href1'' insertExample))) = [(4, 9)]"
    using execute_inserts_link_text [OF h1 h2 h3 h4, of "''href1''"]
    by (simp add: Let_def content plainText_def linkedText_def)
  then show ?thesis using h1 h2 h3 h4 by simp
qed

text \<open>
  Claim C4. With a non-collapsed selection, \<open>execute href\<close> sets \<^verbatim>\<open>linkHref\<close> on the
  ranges \<^verbatim>\<open>getValidRanges\<close> computes from the selection's ranges, one after the other. A node
  is changed exactly when it lies in a range of the selection and the schema allows the
  attribute on it; every other node is left as it was, and so is the selection.
\<close>

theorem execute_applies_to_valid_ranges:
  assumes "\<not> isCollapsed (selection (editor_document cmd))"
  shows "let doc = editor_document cmd;
             doc' = editor_document (execute href cmd)
         in root doc' =
              foldl (\<lambda>content r. setAttributeOnRange r ''linkHref'' href content) (root doc)
                (getValidRanges (schema doc) (root doc) (getRanges (selection doc)) ''linkHref'') \<and>
            length (root doc') = length (root doc) \<and>
            (\<forall>i < length (root doc).
               root doc' ! i =
                 (if covered (getRanges (selection doc)) i \<and>
                     attributeAllowed (schema doc) (root doc ! i) ''linkHref''
                  then node_setAttribute ''linkHref'' href (root doc ! i) else root doc ! i)) \<and>
            selection doc' = selection doc"
proof -
  let ?doc = "editor_document cmd"
  let ?d = "?doc\<lparr>changeBlocks := changeBlocks ?doc + 1\<rparr>"
  let ?doc' = "editor_document (execute href cmd)"
  let ?rs = "getValidRanges (schema ?doc) (root ?doc) (ranges (selection ?doc)) ''linkHref''"
  have nc: "\<not> isCollapsed (selection ?d)" using assms by simp
  have root': "root ?doc' = setAttributeOnRanges ?rs ''linkHref'' href (root ?doc)"
    and sel': "selection ?doc' = selection ?doc"
    unfolding editor_document_execute enqueueChanges_def execute_changes_apply [OF nc]
    by simp_all
  have nth: "\<forall>i < length (root ?doc). root ?doc' ! i =
      (if covered (ranges (selection ?doc)) i \<and> attributeAllowed (schema ?doc) (root ?doc ! i) ''linkHref''
       then node_setAttribute ''linkHref'' href (root ?doc ! i) else root ?doc ! i)"
    by (simp add: root' nth_setAttributeOnRanges getValidRanges_covered)
  have len: "length (root ?doc') = length (root ?doc)"
    by (simp add: root' length_setAttributeOnRanges)
  have loop: "root ?doc' =
      foldl (\<lambda>content r. setAttributeOnRange r ''linkHref'' href content) (root ?doc) ?rs"
    by (simp add: root' setAttributeOnRanges_def)
  show ?thesis
    unfolding Let_def getRanges_def
    using loop len nth sel' by blast
qed

text \<open>
  The example P6 of the specification: a selection over [1,4) that straddles an image on
  which \<^verbatim>\<open>linkHref\<close> is disallowed.
\<close>

theorem execute_applies_to_valid_ranges_witness:
  "\<not> isCollapsed (selection (editor_document straddleExample)) \<and>
   getValidRanges (schema (editor_document straddleExample)) (root (editor_document straddleExample))
     (getRanges (selection (editor_document straddleExample))) ''linkHref'' = [(1, 2), (3, 4)] \<and>
   root (editor_document (execute ''url'' straddleExample)) =
     plainText ''a'' @ linkedText ''url'' ''b'' @ [Element ''image'' []] @
     linkedText ''url'' ''c'' @ plainText ''d'' \<and>
   selection (editor_document (execute ''url'' straddleExample)) =
     selection (editor_document straddleExample)"
proof -
  have h: "\<not> isCollapsed (selection (editor_document straddleExample))"
    by (simp add: straddleExample_def example_defs isCollapsed_def)
  have rs: "getValidRanges (schema (editor_document straddleExample))
      (root (editor_document straddleExample))
      (getRanges (selection (editor_document straddleExample))) ''linkHref'' = [(1, 2), (3, 4)]"
    by (simp add: straddleExample_def example_defs getValidRanges_def getRanges_def)
  have content: "root (editor_document straddleExample) =
      plainText ''ab'' @ [Element ''image'' []] @ plainText ''cd''"
    by (simp add: straddleExample_def example_defs)
  note t = execute_applies_to_valid_ranges [OF h, of "''url''", unfolded Let_def rs]
  have r: "root (editor_document (execute ''url'' straddleExample)) =
      foldl (\<lambda>content r. setAttributeOnRange r ''linkHref'' ''url'' content)
        (root (editor_document straddleExample)) [(1, 2), (3, 4)]"
    using t by blast
  have s: "selection (editor_document (execute ''url'' straddleExample)) =
      selection (editor_document straddleExample)"
    using t by blast
  have "root (editor_document (execute ''url'' straddleExample)) =
          plainText ''a'' @ linkedText ''url'' ''b'' @ [Element ''image'' []] @
          linkedText ''url'' ''c'' @ plainText ''d''"
    unfolding r content
    by (simp add: plainText_def linkedText_def setAttributeOnRange_def)
  then show ?thesis using h rs s by simp
qed

text \<open>
  Claim C5. \<^verbatim>\<open>_checkEnabled\<close> is false when the selection's selected element is an
  \<^verbatim>\<open>image\<close>, whatever the schema answers, and is the schema's
  \<^verbatim>\<open>checkAttributeInSelection\<close> answer for \<^verbatim>\<open>linkHref\<close> in every other case.
\<close>

theorem checkEnabled_image_or_schema:
  "checkEnabled cmd =
     (let doc = editor_document cmd
      in if (\<exists>el. getSelectedElement (root doc) (selection doc) = Some el \<and> node_is el ''image'')
         then False
         else checkAttributeInSelection (schema doc) (root doc) (selection doc) ''linkHref'')"
  by (cases "getSelectedElement (root (editor_document cmd)) (selection (editor_document cmd))")
    (simp_all add: checkEnabled_def Let_def)

text \<open>
  The example P7: a selected image under a schema that allows \<^verbatim>\<open>linkHref\<close> everywhere;
  and a selection that is no single element, where the schema's answer decides.
\<close>

theorem checkEnabled_image_or_schema_witness:
  "getSelectedElement (root (editor_document imageExample)) (selection (editor_document imageExample))
     = Some (Element ''image'' []) \<and>
   checkAttributeInSelection (schema (editor_document imageExample))
     (root (editor_document imageExample)) (selection (editor_document imageExample)) ''linkHref'' \<and>
   checkEnabled imageExample = False \<and>
   getSelectedElement (root (editor_document straddleExample))
     (selection (editor_document straddleExample)) = None \<and>
   checkEnabled straddleExample = True"
proof -
  have a: "getSelectedElement (root (editor_document imageExample))
      (selection (editor_document imageExample)) = Some (Element ''image'' [])"
    by (simp add: imageExample_def example_defs getSelectedElement_def)
  have b: "checkAttributeInSelection (schema (editor_document imageExample))
     (root (editor_document imageExample)) (selection (editor_document imageExample)) ''linkHref''"
    by (simp add: imageExample_def example_defs)
  have c: "checkEnabled imageExample = False"
    using checkEnabled_image_or_schema [of imageExample] a by (simp add: Let_def)
  have d: "getSelectedElement (root (editor_document straddleExample))
     (selection (editor_document straddleExample)) = None"
    by (simp add: straddleExample_def example_defs getSelectedElement_def)
  have e: "checkEnabled straddleExample = True"
    using checkEnabled_image_or_schema [of straddleExample] d
    by (simp add: Let_def) (simp add: straddleExample_def example_defs)
  show ?thesis using a b c d e by simp
qed

text \<open>
  Claim C6. One call of \<open>execute\<close> runs one change block and creates one batch, inside
  that block; the batches that were there are kept. Every change of the content is an
  operation of that batch: replaying its operations on the old content gives the new one.
\<close>

theorem execute_single_batch:
  "let doc = editor_document cmd;
       doc' = editor_document (execute href cmd)
   in changeBlocks doc' = changeBlocks doc + 1 \<and>
      length (batches doc') = length (batches doc) + 1 \<and>
      butlast (batches doc') = batches doc \<and>
      inBlock (last (batches doc')) = changeBlocks doc' \<and>
      root doc' = foldl applyOperation (root doc) (operations (last (batches doc')))"
proof -
  let ?d = "(editor_document cmd)\<lparr>changeBlocks := changeBlocks (editor_document cmd) + 1\<rparr>"
  obtain ops where
    b: "batches (execute_changes href ?d) =
          batches ?d @ [\<lparr>inBlock = changeBlocks ?d, operations = ops\<rparr>]"
    and r: "root (execute_changes href ?d) = foldl applyOperation (root ?d) ops"
    and c: "changeBlocks (execute_changes href ?d) = changeBlocks ?d"
    using execute_changes_batch [of href ?d] by blast
  have e: "editor_document (execute href cmd) = execute_changes href ?d"
    by (simp add: editor_document_execute enqueueChanges_def)
  show ?thesis
    unfolding Let_def e b r c by simp
qed

text \<open>
  Claim C7. Calling \<open>execute href\<close> twice in succession leaves the same content and the
  same selection as calling it once, from every document and selection and for every
  \<open>href\<close>.
\<close>

theorem execute_idempotent:
  "root (editor_document (execute href (execute href cmd))) =
     root (editor_document (execute href cmd)) \<and>
   selection (editor_document (execute href (execute href cmd))) =
     selection (editor_document (execute href cmd))"
  unfolding editor_document_execute by (rule run_twice)



text \<open>
  Claim C9. \<open>refresh\<close> sets \<^verbatim>\<open>value\<close> to the selection's \<^verbatim>\<open>linkHref\<close> attribute (absent:
  \<open>None\<close>) and \<^verbatim>\<open>isEnabled\<close> to the result of \<^verbatim>\<open>_checkEnabled\<close>, and leaves the document
  as it was: content, selection, schema, batches and change blocks.
\<close>

theorem refresh_only_updates_observables:
  "cmd_value (refresh cmd) = getAttribute (selection (editor_document cmd)) ''linkHref'' \<and>
   isEnabled (refresh cmd) = checkEnabled cmd \<and>
   editor_document (refresh cmd) = editor_document cmd"
  by (simp add: refresh_def checkEnabled_def Let_def)

text \<open>
  Claim C10. In the strategies (a) and (c) \<open>execute\<close> inserts no node: with the
  \<^verbatim>\<open>linkHref\<close> attribute taken off every node, the content after the call is the content
  before it, so only values of \<^verbatim>\<open>linkHref\<close> have changed. In the strategy (b) the content
  grows by the length of \<open>href\<close>.
\<close>

theorem execute_preserves_structure:
  "let doc = editor_document cmd;
       doc' = editor_document (execute href cmd)
   in (strategy (selection doc) \<noteq> InsertLink \<longrightarrow>
         map (node_removeAttribute ''linkHref'') (root doc') =
           map (node_removeAttribute ''linkHref'') (root doc)) \<and>
      (strategy (selection doc) = InsertLink \<longrightarrow>
         length (root doc') = length (root doc) + length href)"
proof -
  let ?doc = "editor_document cmd"
  let ?d = "?doc\<lparr>changeBlocks := changeBlocks ?doc + 1\<rparr>"
  let ?doc' = "editor_document (execute href cmd)"
  have e: "?doc' = execute_changes href ?d"
    by (simp add: editor_document_execute enqueueChanges_def)
  show ?thesis
  proof (cases "isCollapsed (selection ?doc)")
    case False
    then have nc: "\<not> isCollapsed (selection ?d)" by simp
    show ?thesis
      unfolding Let_def e execute_changes_apply [OF nc]
      using False by (simp add: strategy_def map_remove_setAttributeOnRanges)
  next
    case True
    then obtain p where rs: "ranges (selection ?d) = [(p, p)]"
      by (auto simp: isCollapsed_iff)
    show ?thesis
    proof (cases "map_of (attributes (selection ?d)) ''linkHref''")
      case None
      show ?thesis
        unfolding Let_def e execute_changes_insert [OF rs None]
        using True None by (simp add: strategy_def hasAttribute_def insertText_def)
    next
      case (Some cur)
      show ?thesis
        unfolding Let_def e execute_changes_update [OF rs Some]
        using True Some by (simp add: strategy_def hasAttribute_def map_remove_setAttributeOnRange)
    qed
  qed
qed

theorem execute_preserves_structure_witness:
  "strategy (selection (editor_document retargetExample)) = UpdateLink \<and>
   map (node_removeAttribute ''linkHref'') (root (editor_document (execute ''new'' retargetExample))) =
     plainText ''abcdefghi'' \<and>
   strategy (selection (editor_document straddleExample)) = ApplyToRanges \<and>
   map (node_removeAttribute ''linkHref'') (root (editor_document (execute ''url'' straddleExample))) =
     plainText ''ab'' @ [Element ''image'' []] @ plainText ''cd'' \<and>
   strategy (selection (editor_document insertExample)) = InsertLink \<and>
   length (root (editor_document (execute ''href1'' insertExample))) = 11"
proof -
  have a: "strategy (selection (editor_document retargetExample)) = UpdateLink"
    by (simp add: retargetExample_def example_defs strategy_def isCollapsed_def hasAttribute_def)
  have b: "strategy (selection (editor_document straddleExample)) = ApplyToRanges"
    by (simp add: straddleExample_def example_defs strategy_def isCollapsed_def)
  have c: "strategy (selection (editor_document insertExample)) = InsertLink"
    by (simp add: insertExample_def example_defs strategy_def isCollapsed_def hasAttribute_def)
  have a': "map (node_removeAttribute ''linkHref'') (root (editor_document (execute ''new'' retargetExample))) =
     plainText ''abcdefghi''"
    using execute_preserves_structure [of retargetExample "''new''"] a
    by (simp add: Let_def) (simp add: retargetExample_def example_defs)
  have b': "map (node_removeAttribute ''linkHref'') (root (editor_document (execute ''url'' straddleExample))) =
     plainText ''ab'' @ [Element ''image'' []] @ plainText ''cd''"
    using execute_preserves_structure [of straddleExample "''url''"] b
    by (simp add: Let_def) (simp add: straddleExample_def example_defs)
  have c': "length (root (editor_document (execute ''href1'' insertExample))) = 11"
    using execute_preserves_structure [of insertExample "''href1''"] c
    by (simp add: Let_def) (simp add: insertExample_def example_defs)
  show ?thesis using a b c a' b' c' by simp
qed

end
